theory Spec2Isabelle
  imports Main "HOL-Library.Word"
begin

section \<open>The value cell of the Karina runtime (Source/Value.hxx)\<close>

text \<open>
  The header defines two classes. \<open>Value\<close> is a tagged union: the field \<open>type_\<close> selects
  the member of an anonymous union that is in use. \<open>ValueData\<close> is the base class of the
  four payload classes and holds the share counter \<open>copyCount_\<close>. The fields are named
  \<open>Value_type\<close> and \<open>copyCount\<close> below.

  Objects live at addresses. The state below has one map for the \<open>Value\<close> objects whose
  lifetime has begun and not ended, and one for the payload objects that \<open>new\<close> has
  returned and \<open>delete\<close> has not yet taken back. Going through a pointer to an object
  that is in neither map is undefined behaviour in C++, and so is leaving the range of
  \<open>int\<close>; both are outcomes of the model, next to a failed \<open>assert\<close>. Assertions are
  compiled in (\<open>NDEBUG\<close> is not defined).
\<close>

subsection \<open>Data\<close>

type_synonym addr = nat \<comment> \<open>a \<open>Value *\<close>\<close>
type_synonym ptr = nat \<comment> \<open>a \<open>ValueData *\<close> (\<open>String *\<close>, \<open>Array *\<close>, ...)\<close>
type_synonym ulong = "64 word" \<comment> \<open>\<open>unsigned long\<close>\<close>
type_synonym double = "64 word" \<comment> \<open>a \<open>double\<close>, as its 64 bits: the code only copies it\<close>

text \<open>\<open>enum class Type\<close>, in the order of the source.\<close>

datatype Type =
  Null | Boolean | Integer | FloatingPoint | String | Array | Dictionary | Closure | Reference

text \<open>
  A \<open>Value\<close>: the tag together with the union member the tag selects. The tag \<open>Null\<close>
  selects no member; whatever the union still holds under that tag is read by no function
  of the header.
\<close>

datatype Value =
  V_Null
  | V_Boolean bool
  | V_Integer ulong
  | V_FloatingPoint double
  | V_String ptr
  | V_Array ptr
  | V_Dictionary ptr
  | V_Closure ptr
  | V_Reference addr

fun Value_type :: "Value \<Rightarrow> Type" where
  "Value_type V_Null = Null"
| "Value_type (V_Boolean b) = Boolean"
| "Value_type (V_Integer n) = Integer"
| "Value_type (V_FloatingPoint x) = FloatingPoint"
| "Value_type (V_String p) = String"
| "Value_type (V_Array p) = Array"
| "Value_type (V_Dictionary p) = Dictionary"
| "Value_type (V_Closure p) = Closure"
| "Value_type (V_Reference r) = Reference"

text \<open>The four final classes derived from \<open>ValueData\<close>: the dynamic class of a payload.\<close>

datatype Class = String_class | Array_class | Dictionary_class | Closure_class

text \<open>
  A payload object. \<open>copyCount_\<close> is the only field the header shows; the fields of the
  derived classes are not part of it.
\<close>

record ValueData =
  copyCount :: int
  dynamic_class :: Class

definition INT_MAX :: int where
  "INT_MAX = 2147483647"

definition INT_MIN :: int where
  "INT_MIN = - 2147483648"

datatype error =
  AssertionFailed \<comment> \<open>an \<open>assert\<close> of the source does not hold\<close>
  | InvalidAccess \<comment> \<open>a pointer to no live object is followed\<close>
  | SignedOverflow \<comment> \<open>\<open>++\<close> or \<open>--\<close> leaves the range of \<open>int\<close>\<close>
  | StorageInUse \<comment> \<open>a client constructs an object where a live one is\<close>

record state =
  vals :: "addr \<rightharpoonup> Value"
  heap :: "ptr \<rightharpoonup> ValueData"

definition empty_state :: state where
  "empty_state = \<lparr>vals = Map.empty, heap = Map.empty\<rparr>"

text \<open>Beginning and ending the lifetime of the \<open>Value\<close> at an address.\<close>

definition put :: "addr \<Rightarrow> Value \<Rightarrow> state \<Rightarrow> state" where
  "put a v s = s\<lparr>vals := (vals s)(a \<mapsto> v)\<rparr>"

definition end_lifetime :: "addr \<Rightarrow> state \<Rightarrow> state" where
  "end_lifetime a s = s\<lparr>vals := (vals s)(a := None)\<rparr>"

subsection \<open>ValueData\<close>

text \<open>\<open>ValueData::ValueData()\<close>, run as the base part of a payload of class \<open>c\<close>.\<close>

definition ValueData_ctor :: "Class \<Rightarrow> ValueData" where
  "ValueData_ctor c = \<lparr>copyCount = 0, dynamic_class = c\<rparr>"

text \<open>\<open>ValueData::copy\<close>: \<open>++copyCount_; return this;\<close>\<close>

definition copy :: "ptr \<Rightarrow> state \<Rightarrow> error + ptr \<times> state" where
  "copy this s =
     (case heap s this of
        None \<Rightarrow> Inl InvalidAccess
      | Some d \<Rightarrow>
          if copyCount d = INT_MAX then Inl SignedOverflow
          else Inr (this, s\<lparr>heap := (heap s)(this \<mapsto> d\<lparr>copyCount := copyCount d + 1\<rparr>)\<rparr>))"

text \<open>\<open>ValueData::destroy\<close>: \<open>delete this\<close> when the counter is 0, \<open>--copyCount_\<close> otherwise.\<close>

definition destroy :: "ptr \<Rightarrow> state \<Rightarrow> error + state" where
  "destroy this s =
     (case heap s this of
        None \<Rightarrow> Inl InvalidAccess
      | Some d \<Rightarrow>
          if copyCount d = 0 then Inr (s\<lparr>heap := (heap s)(this := None)\<rparr>)
          else if copyCount d = INT_MIN then Inl SignedOverflow
          else Inr (s\<lparr>heap := (heap s)(this \<mapsto> d\<lparr>copyCount := copyCount d - 1\<rparr>)\<rparr>))"

subsection \<open>Construction of a Value\<close>

text \<open>
  \<open>new String(std::forward<Args>(args)...)\<close>: the allocator hands out the address \<open>p\<close>,
  and a \<open>String\<close> is constructed there. The argument list goes to the constructor of
  \<open>String\<close>, whose fields the header does not show.
\<close>

definition new_String :: "'args \<Rightarrow> ptr \<Rightarrow> state \<Rightarrow> state" where
  "new_String args p s = s\<lparr>heap := (heap s)(p \<mapsto> ValueData_ctor String_class)\<rparr>"

text \<open>The private constructors of \<open>VALUE_CONSTRUCTOR2\<close>, chosen by the static pointer type.\<close>

definition Value_String :: "addr \<Rightarrow> ptr \<Rightarrow> state \<Rightarrow> state" where
  "Value_String this x s = put this (V_String x) s"

definition Value_Array :: "addr \<Rightarrow> ptr \<Rightarrow> state \<Rightarrow> state" where
  "Value_Array this x s = put this (V_Array x) s"

definition Value_Dictionary :: "addr \<Rightarrow> ptr \<Rightarrow> state \<Rightarrow> state" where
  "Value_Dictionary this x s = put this (V_Dictionary x) s"

definition Value_Closure :: "addr \<Rightarrow> ptr \<Rightarrow> state \<Rightarrow> state" where
  "Value_Closure this x s = put this (V_Closure x) s"

text \<open>
  The expansions of \<open>VALUE_MAKER\<close>. The macro pastes its argument into the name of the
  function only: each body is \<open>return Value(new String(...))\<close>, and the expression
  \<open>new String(...)\<close> has type \<open>String *\<close>, so the constructor taken is \<open>Value(String *)\<close>.
  The returned \<open>Value\<close> is constructed at \<open>this\<close>.
\<close>

definition MakeString :: "'args \<Rightarrow> ptr \<Rightarrow> addr \<Rightarrow> state \<Rightarrow> state" where
  "MakeString args p this s = Value_String this p (new_String args p s)"

definition MakeArray :: "'args \<Rightarrow> ptr \<Rightarrow> addr \<Rightarrow> state \<Rightarrow> state" where
  "MakeArray args p this s = Value_String this p (new_String args p s)"

definition MakeDictionary :: "'args \<Rightarrow> ptr \<Rightarrow> addr \<Rightarrow> state \<Rightarrow> state" where
  "MakeDictionary args p this s = Value_String this p (new_String args p s)"

definition MakeClosure :: "'args \<Rightarrow> ptr \<Rightarrow> addr \<Rightarrow> state \<Rightarrow> state" where
  "MakeClosure args p this s = Value_String this p (new_String args p s)"

text \<open>\<open>Value::Value()\<close> and the expansions of \<open>VALUE_CONSTRUCTOR1\<close>.\<close>

definition Value_default :: "addr \<Rightarrow> state \<Rightarrow> state" where
  "Value_default this s = put this V_Null s"

definition Value_Boolean :: "addr \<Rightarrow> bool \<Rightarrow> state \<Rightarrow> state" where
  "Value_Boolean this x s = put this (V_Boolean x) s"

definition Value_Integer :: "addr \<Rightarrow> ulong \<Rightarrow> state \<Rightarrow> state" where
  "Value_Integer this x s = put this (V_Integer x) s"

definition Value_FloatingPoint :: "addr \<Rightarrow> double \<Rightarrow> state \<Rightarrow> state" where
  "Value_FloatingPoint this x s = put this (V_FloatingPoint x) s"

definition Value_Reference :: "addr \<Rightarrow> addr \<Rightarrow> state \<Rightarrow> state" where
  "Value_Reference this x s = put this (V_Reference x) s"

text \<open>\<open>Value::Value(const Value &other)\<close>\<close>

definition Value_copy :: "addr \<Rightarrow> addr \<Rightarrow> state \<Rightarrow> error + state" where
  "Value_copy this other s =
     (case vals s other of
        None \<Rightarrow> Inl InvalidAccess
      | Some v \<Rightarrow>
          (case v of
             V_Null \<Rightarrow> Inr (put this V_Null s)
           | V_Boolean b \<Rightarrow> Inr (put this (V_Boolean b) s)
           | V_Integer n \<Rightarrow> Inr (put this (V_Integer n) s)
           | V_FloatingPoint x \<Rightarrow> Inr (put this (V_FloatingPoint x) s)
           | V_String p \<Rightarrow>
               (case copy p s of Inl e \<Rightarrow> Inl e | Inr (q, s') \<Rightarrow> Inr (put this (V_String q) s'))
           | V_Array p \<Rightarrow>
               (case copy p s of Inl e \<Rightarrow> Inl e | Inr (q, s') \<Rightarrow> Inr (put this (V_Array q) s'))
           | V_Dictionary p \<Rightarrow>
               (case copy p s of Inl e \<Rightarrow> Inl e | Inr (q, s') \<Rightarrow> Inr (put this (V_Dictionary q) s'))
           | V_Closure p \<Rightarrow>
               (case copy p s of Inl e \<Rightarrow> Inl e | Inr (q, s') \<Rightarrow> Inr (put this (V_Closure q) s'))
           | V_Reference r \<Rightarrow> Inl AssertionFailed))"

text \<open>
  \<open>Value::Value(Value &&other)\<close>. For a heap kind the new object is written first and
  \<open>other.Value_type = Type::Null\<close> after it, as in the source.
\<close>

definition Value_move :: "addr \<Rightarrow> addr \<Rightarrow> state \<Rightarrow> error + state" where
  "Value_move this other s =
     (case vals s other of
        None \<Rightarrow> Inl InvalidAccess
      | Some v \<Rightarrow>
          (case v of
             V_Null \<Rightarrow> Inr (put this V_Null s)
           | V_Boolean b \<Rightarrow> Inr (put this (V_Boolean b) s)
           | V_Integer n \<Rightarrow> Inr (put this (V_Integer n) s)
           | V_FloatingPoint x \<Rightarrow> Inr (put this (V_FloatingPoint x) s)
           | V_String p \<Rightarrow> Inr (put other V_Null (put this (V_String p) s))
           | V_Array p \<Rightarrow> Inr (put other V_Null (put this (V_Array p) s))
           | V_Dictionary p \<Rightarrow> Inr (put other V_Null (put this (V_Dictionary p) s))
           | V_Closure p \<Rightarrow> Inr (put other V_Null (put this (V_Closure p) s))
           | V_Reference r \<Rightarrow> Inl AssertionFailed))"

text \<open>\<open>Value::~Value()\<close>: releases the payload of a heap kind; the object's lifetime ends.\<close>

definition Value_dtor :: "addr \<Rightarrow> state \<Rightarrow> error + state" where
  "Value_dtor this s =
     (case vals s this of
        None \<Rightarrow> Inl InvalidAccess
      | Some v \<Rightarrow>
          (case v of
             V_String p \<Rightarrow>
               (case destroy p s of Inl e \<Rightarrow> Inl e | Inr s' \<Rightarrow> Inr (end_lifetime this s'))
           | V_Array p \<Rightarrow>
               (case destroy p s of Inl e \<Rightarrow> Inl e | Inr s' \<Rightarrow> Inr (end_lifetime this s'))
           | V_Dictionary p \<Rightarrow>
               (case destroy p s of Inl e \<Rightarrow> Inl e | Inr s' \<Rightarrow> Inr (end_lifetime this s'))
           | V_Closure p \<Rightarrow>
               (case destroy p s of Inl e \<Rightarrow> Inl e | Inr s' \<Rightarrow> Inr (end_lifetime this s'))
           | _ \<Rightarrow> Inr (end_lifetime this s)))"

subsection \<open>Assignment\<close>

text \<open>
  \<open>template<class T> void Value::operator=(T &&other)\<close> asserts that neither side is
  tagged \<open>Reference\<close>, returns when \<open>this == &other\<close>, and otherwise runs
  \<open>this->~Value(); new (this) Value(std::forward(other));\<close>. The call \<open>std::forward(other)\<close>
  names no template argument, and the parameter of \<open>std::forward\<close> does not let one be
  deduced from \<open>other\<close>: the template has no instantiation, for an lvalue or an rvalue
  argument, so no function below stands for it. What its body sets out to do, the
  destructor followed by a constructor on the same storage, is \<open>Value_dtor\<close> followed by
  \<open>Value_copy\<close> or \<open>Value_move\<close>.
\<close>

subsection \<open>Dereference, type tests, getters\<close>

text \<open>\<open>Value::tryDereference\<close>\<close>

definition tryDereference :: "addr \<Rightarrow> state \<Rightarrow> error + addr" where
  "tryDereference this s =
     (case vals s this of
        None \<Rightarrow> Inl InvalidAccess
      | Some v \<Rightarrow>
          (case v of
             V_Reference r \<Rightarrow>
               (case vals s r of
                  None \<Rightarrow> Inl InvalidAccess
                | Some w \<Rightarrow> if Value_type w \<noteq> Reference then Inr r else Inl AssertionFailed)
           | _ \<Rightarrow> Inr this))"

text \<open>\<open>VALUE_TYPE_TESTER(valueType)\<close> and its eight expansions.\<close>

definition VALUE_TYPE_TESTER :: "Type \<Rightarrow> addr \<Rightarrow> state \<Rightarrow> error + bool" where
  "VALUE_TYPE_TESTER valueType this s =
     (case vals s this of
        None \<Rightarrow> Inl InvalidAccess
      | Some v \<Rightarrow>
          if Value_type v \<noteq> Reference then Inr (Value_type v = valueType) else Inl AssertionFailed)"

definition isNull :: "addr \<Rightarrow> state \<Rightarrow> error + bool" where
  "isNull = VALUE_TYPE_TESTER Null"

definition isBoolean :: "addr \<Rightarrow> state \<Rightarrow> error + bool" where
  "isBoolean = VALUE_TYPE_TESTER Boolean"

definition isInteger :: "addr \<Rightarrow> state \<Rightarrow> error + bool" where
  "isInteger = VALUE_TYPE_TESTER Integer"

definition isFloatingPoint :: "addr \<Rightarrow> state \<Rightarrow> error + bool" where
  "isFloatingPoint = VALUE_TYPE_TESTER FloatingPoint"

definition isString :: "addr \<Rightarrow> state \<Rightarrow> error + bool" where
  "isString = VALUE_TYPE_TESTER String"

definition isArray :: "addr \<Rightarrow> state \<Rightarrow> error + bool" where
  "isArray = VALUE_TYPE_TESTER Array"

definition isDictionary :: "addr \<Rightarrow> state \<Rightarrow> error + bool" where
  "isDictionary = VALUE_TYPE_TESTER Dictionary"

definition isClosure :: "addr \<Rightarrow> state \<Rightarrow> error + bool" where
  "isClosure = VALUE_TYPE_TESTER Closure"

text \<open>
  \<open>VALUE_DATA_GETTER1\<close>: \<open>assert(Value_type == Type::valueType); return &simpleValueData;\<close>
  The pointer returned is to a member of the union of the object at \<open>this\<close>: it is that
  object's address.
\<close>

definition VALUE_DATA_GETTER1 :: "Type \<Rightarrow> addr \<Rightarrow> state \<Rightarrow> error + addr" where
  "VALUE_DATA_GETTER1 valueType this s =
     (case vals s this of
        None \<Rightarrow> Inl InvalidAccess
      | Some v \<Rightarrow> if Value_type v = valueType then Inr this else Inl AssertionFailed)"

definition getBoolean :: "addr \<Rightarrow> state \<Rightarrow> error + addr" where
  "getBoolean = VALUE_DATA_GETTER1 Boolean"

definition getInteger :: "addr \<Rightarrow> state \<Rightarrow> error + addr" where
  "getInteger = VALUE_DATA_GETTER1 Integer"

definition getFloatingPoint :: "addr \<Rightarrow> state \<Rightarrow> error + addr" where
  "getFloatingPoint = VALUE_DATA_GETTER1 FloatingPoint"

text \<open>\<open>VALUE_DATA_GETTER2\<close>: \<open>assert(Value_type == Type::valueType); return valueData;\<close>\<close>

definition getString :: "addr \<Rightarrow> state \<Rightarrow> error + ptr" where
  "getString this s =
     (case vals s this of
        None \<Rightarrow> Inl InvalidAccess
      | Some v \<Rightarrow> (case v of V_String p \<Rightarrow> Inr p | _ \<Rightarrow> Inl AssertionFailed))"

definition getArray :: "addr \<Rightarrow> state \<Rightarrow> error + ptr" where
  "getArray this s =
     (case vals s this of
        None \<Rightarrow> Inl InvalidAccess
      | Some v \<Rightarrow> (case v of V_Array p \<Rightarrow> Inr p | _ \<Rightarrow> Inl AssertionFailed))"

definition getDictionary :: "addr \<Rightarrow> state \<Rightarrow> error + ptr" where
  "getDictionary this s =
     (case vals s this of
        None \<Rightarrow> Inl InvalidAccess
      | Some v \<Rightarrow> (case v of V_Dictionary p \<Rightarrow> Inr p | _ \<Rightarrow> Inl AssertionFailed))"

definition getClosure :: "addr \<Rightarrow> state \<Rightarrow> error + ptr" where
  "getClosure this s =
     (case vals s this of
        None \<Rightarrow> Inl InvalidAccess
      | Some v \<Rightarrow> (case v of V_Closure p \<Rightarrow> Inr p | _ \<Rightarrow> Inl AssertionFailed))"

subsection \<open>Running one operation several times\<close>

fun repeat :: "nat \<Rightarrow> (state \<Rightarrow> error + state) \<Rightarrow> state \<Rightarrow> error + state" where
  "repeat 0 f s = Inr s"
| "repeat (Suc n) f s = (case f s of Inl e \<Rightarrow> Inl e | Inr s' \<Rightarrow> repeat n f s')"

text \<open>One call of \<open>copy\<close> whose returned pointer is dropped.\<close>

definition share :: "ptr \<Rightarrow> state \<Rightarrow> error + state" where
  "share p s = (case copy p s of Inl e \<Rightarrow> Inl e | Inr (q, s') \<Rightarrow> Inr s')"

subsection \<open>Ownership\<close>

text \<open>The payload a \<open>Value\<close> owns: the pointer of a heap kind, nothing otherwise.\<close>

fun owned :: "Value \<Rightarrow> ptr option" where
  "owned (V_String p) = Some p"
| "owned (V_Array p) = Some p"
| "owned (V_Dictionary p) = Some p"
| "owned (V_Closure p) = Some p"
| "owned V_Null = None"
| "owned (V_Boolean b) = None"
| "owned (V_Integer n) = None"
| "owned (V_FloatingPoint x) = None"
| "owned (V_Reference r) = None"

definition owners :: "state \<Rightarrow> ptr \<Rightarrow> addr set" where
  "owners s p = {a. \<exists>v. vals s a = Some v \<and> owned v = Some p}"

text \<open>
  The bookkeeping is sound in a state when no live \<open>Value\<close> owns a payload that has been
  freed, and every live payload has a counter that is not negative and is one less than
  the number of live \<open>Value\<close>s owning it.
\<close>

definition no_dangling :: "state \<Rightarrow> bool" where
  "no_dangling s = (\<forall>a v p. vals s a = Some v \<and> owned v = Some p \<longrightarrow> heap s p \<noteq> None)"

definition counted :: "state \<Rightarrow> bool" where
  "counted s =
     (\<forall>p d. heap s p = Some d \<longrightarrow> 0 \<le> copyCount d \<and> int (card (owners s p)) = copyCount d + 1)"

definition sound :: "state \<Rightarrow> bool" where
  "sound s = (no_dangling s \<and> counted s)"

subsection \<open>Clients\<close>

text \<open>
  What a client of the header can do with \<open>Value\<close>s, one operation at a time. A
  constructor runs on storage that holds no live \<open>Value\<close>, and \<open>new\<close> returns an address
  that holds no live payload; the functions that only read leave the state as it is.
\<close>

datatype 'args operation =
  Op_default addr
  | Op_Boolean addr bool
  | Op_Integer addr ulong
  | Op_FloatingPoint addr double
  | Op_Reference addr addr
  | Op_MakeString 'args ptr addr
  | Op_MakeArray 'args ptr addr
  | Op_MakeDictionary 'args ptr addr
  | Op_MakeClosure 'args ptr addr
  | Op_copy addr addr
  | Op_move addr addr
  | Op_dtor addr
  | Op_tryDereference addr
  | Op_is Type addr
  | Op_getBoolean addr
  | Op_getInteger addr
  | Op_getFloatingPoint addr
  | Op_getString addr
  | Op_getArray addr
  | Op_getDictionary addr
  | Op_getClosure addr

definition in_free_storage :: "addr \<Rightarrow> state \<Rightarrow> error + state \<Rightarrow> error + state" where
  "in_free_storage this s r = (if vals s this = None then r else Inl StorageInUse)"

definition at_new_address :: "ptr \<Rightarrow> state \<Rightarrow> error + state \<Rightarrow> error + state" where
  "at_new_address p s r = (if heap s p = None then r else Inl StorageInUse)"

definition reading :: "state \<Rightarrow> error + 'a \<Rightarrow> error + state" where
  "reading s r = (case r of Inl e \<Rightarrow> Inl e | Inr x \<Rightarrow> Inr s)"

fun exec :: "'args operation \<Rightarrow> state \<Rightarrow> error + state" where
  "exec (Op_default this) s = in_free_storage this s (Inr (Value_default this s))"
| "exec (Op_Boolean this x) s = in_free_storage this s (Inr (Value_Boolean this x s))"
| "exec (Op_Integer this x) s = in_free_storage this s (Inr (Value_Integer this x s))"
| "exec (Op_FloatingPoint this x) s =
     in_free_storage this s (Inr (Value_FloatingPoint this x s))"
| "exec (Op_Reference this x) s = in_free_storage this s (Inr (Value_Reference this x s))"
| "exec (Op_MakeString args p this) s =
     in_free_storage this s (at_new_address p s (Inr (MakeString args p this s)))"
| "exec (Op_MakeArray args p this) s =
     in_free_storage this s (at_new_address p s (Inr (MakeArray args p this s)))"
| "exec (Op_MakeDictionary args p this) s =
     in_free_storage this s (at_new_address p s (Inr (MakeDictionary args p this s)))"
| "exec (Op_MakeClosure args p this) s =
     in_free_storage this s (at_new_address p s (Inr (MakeClosure args p this s)))"
| "exec (Op_copy this other) s = in_free_storage this s (Value_copy this other s)"
| "exec (Op_move this other) s = in_free_storage this s (Value_move this other s)"
| "exec (Op_dtor this) s = Value_dtor this s"
| "exec (Op_tryDereference this) s = reading s (tryDereference this s)"
| "exec (Op_is t this) s = reading s (VALUE_TYPE_TESTER t this s)"
| "exec (Op_getBoolean this) s = reading s (getBoolean this s)"
| "exec (Op_getInteger this) s = reading s (getInteger this s)"
| "exec (Op_getFloatingPoint this) s = reading s (getFloatingPoint this s)"
| "exec (Op_getString this) s = reading s (getString this s)"
| "exec (Op_getArray this) s = reading s (getArray this s)"
| "exec (Op_getDictionary this) s = reading s (getDictionary this s)"
| "exec (Op_getClosure this) s = reading s (getClosure this s)"

fun run :: "'args operation list \<Rightarrow> state \<Rightarrow> error + state" where
  "run [] s = Inr s"
| "run (x # xs) s = (case exec x s of Inl e \<Rightarrow> Inl e | Inr s' \<Rightarrow> run xs s')"

section \<open>The factories\<close>

lemma vals_put [simp]: "vals (put a v s) = (vals s)(a \<mapsto> v)"
  by (simp add: put_def)

lemma heap_put [simp]: "heap (put a v s) = heap s"
  by (simp add: put_def)

lemma vals_end_lifetime [simp]: "vals (end_lifetime a s) = (vals s)(a := None)"
  by (simp add: end_lifetime_def)

lemma heap_end_lifetime [simp]: "heap (end_lifetime a s) = heap s"
  by (simp add: end_lifetime_def)

lemma vals_new_String [simp]: "vals (new_String args p s) = vals s"
  by (simp add: new_String_def)

lemma heap_new_String [simp]:
  "heap (new_String args p s) = (heap s)(p \<mapsto> ValueData_ctor String_class)"
  by (simp add: new_String_def)

text \<open>
  C1. Each factory is to allocate a payload of its own kind and return a \<open>Value\<close> tagged
  with that kind. \<open>MakeString\<close> does. \<open>MakeArray\<close>, called with any arguments from any
  state, allocates a \<open>String\<close> and returns a \<open>Value\<close> tagged \<open>String\<close>: \<open>isArray()\<close> is false
  on it, \<open>isString()\<close> is true, \<open>getArray()\<close> fails its assertion, and the payload's
  dynamic class is \<open>String\<close>. \<open>MakeDictionary\<close> and \<open>MakeClosure\<close> do the same.
\<close>

theorem MakeArray_makes_a_String:
  "isArray this (MakeArray args p this s) = Inr False
   \<and> isString this (MakeArray args p this s) = Inr True
   \<and> getArray this (MakeArray args p this s) = Inl AssertionFailed
   \<and> getString this (MakeArray args p this s) = Inr p
   \<and> heap (MakeArray args p this s) p = Some \<lparr>copyCount = 0, dynamic_class = String_class\<rparr>
   \<and> isDictionary this (MakeDictionary args p this s) = Inr False
   \<and> isString this (MakeDictionary args p this s) = Inr True
   \<and> isClosure this (MakeClosure args p this s) = Inr False
   \<and> isString this (MakeClosure args p this s) = Inr True
   \<and> isString this (MakeString args p this s) = Inr True
   \<and> heap (MakeString args p this s) p = Some \<lparr>copyCount = 0, dynamic_class = String_class\<rparr>"
  by (simp add: MakeArray_def MakeDictionary_def MakeClosure_def MakeString_def
      Value_String_def isArray_def isString_def isDictionary_def isClosure_def
      VALUE_TYPE_TESTER_def getArray_def getString_def ValueData_ctor_def)

section \<open>Sharing and releasing a payload\<close>

lemma repeat_Suc_end:
  "repeat (Suc n) f s = (case repeat n f s of Inl e \<Rightarrow> Inl e | Inr s' \<Rightarrow> f s')"
proof (induction n arbitrary: s)
  case 0
  then show ?case by (simp split: sum.splits)
next
  case (Suc n)
  have "repeat (Suc (Suc n)) f s =
      (case f s of Inl e \<Rightarrow> Inl e | Inr s' \<Rightarrow> repeat (Suc n) f s')"
    by (rule repeat.simps)
  also have "\<dots> = (case f s of Inl e \<Rightarrow> Inl e | Inr s' \<Rightarrow>
      (case repeat n f s' of Inl e \<Rightarrow> Inl e | Inr s'' \<Rightarrow> f s''))"
    by (simp only: Suc.IH)
  also have "\<dots> = (case repeat (Suc n) f s of Inl e \<Rightarrow> Inl e | Inr s' \<Rightarrow> f s')"
    by (simp split: sum.splits)
  finally show ?case .
qed

lemma share_live:
  "heap s p = Some d \<Longrightarrow> copyCount d < INT_MAX \<Longrightarrow>
   \<exists>s'. share p s = Inr s' \<and> vals s' = vals s
      \<and> heap s' = (heap s)(p \<mapsto> d\<lparr>copyCount := copyCount d + 1\<rparr>)"
  by (simp add: share_def copy_def)

lemma repeat_share:
  "heap s p = Some d \<Longrightarrow> copyCount d + int n \<le> INT_MAX \<Longrightarrow>
   \<exists>s'. repeat n (share p) s = Inr s' \<and> vals s' = vals s
      \<and> heap s' = (heap s)(p \<mapsto> d\<lparr>copyCount := copyCount d + int n\<rparr>)"
proof (induction n arbitrary: s d)
  case 0
  then show ?case by (simp add: map_upd_triv)
next
  case (Suc n)
  let ?d = "d\<lparr>copyCount := copyCount d + 1\<rparr>"
  from Suc.prems obtain s1 where s1: "share p s = Inr s1" "vals s1 = vals s"
    "heap s1 = (heap s)(p \<mapsto> ?d)"
    using share_live [of s p d] by auto
  have "heap s1 p = Some ?d" "copyCount ?d + int n \<le> INT_MAX"
    using s1 Suc.prems by simp_all
  from Suc.IH [OF this] obtain s' where s': "repeat n (share p) s1 = Inr s'" "vals s' = vals s1"
    "heap s' = (heap s1)(p \<mapsto> ?d\<lparr>copyCount := copyCount ?d + int n\<rparr>)"
    by blast
  have "repeat (Suc n) (share p) s = Inr s'"
    using s1 s' by simp
  moreover have "vals s' = vals s"
    using s1 s' by simp
  moreover have "heap s' = (heap s)(p \<mapsto> d\<lparr>copyCount := copyCount d + int (Suc n)\<rparr>)"
    using s1 s' by (simp add: add.commute add.left_commute)
  ultimately show ?case by blast
qed

lemma destroy_shared:
  "heap s p = Some d \<Longrightarrow> 0 < copyCount d \<Longrightarrow>
   \<exists>s'. destroy p s = Inr s' \<and> vals s' = vals s
      \<and> heap s' = (heap s)(p \<mapsto> d\<lparr>copyCount := copyCount d - 1\<rparr>)"
  by (simp add: destroy_def INT_MIN_def)

lemma destroy_sole:
  "heap s p = Some d \<Longrightarrow> copyCount d = 0 \<Longrightarrow>
   \<exists>s'. destroy p s = Inr s' \<and> vals s' = vals s \<and> heap s' = (heap s)(p := None)"
  by (simp add: destroy_def)

lemma destroy_freed: "heap s p = None \<Longrightarrow> destroy p s = Inl InvalidAccess"
  by (simp add: destroy_def)

lemma repeat_destroy:
  "heap s p = Some d \<Longrightarrow> int k \<le> copyCount d \<Longrightarrow>
   \<exists>s'. repeat k (destroy p) s = Inr s' \<and> vals s' = vals s
      \<and> heap s' = (heap s)(p \<mapsto> d\<lparr>copyCount := copyCount d - int k\<rparr>)"
proof (induction k arbitrary: s d)
  case 0
  then show ?case by (simp add: map_upd_triv)
next
  case (Suc k)
  let ?d = "d\<lparr>copyCount := copyCount d - 1\<rparr>"
  from Suc.prems obtain s1 where s1: "destroy p s = Inr s1" "vals s1 = vals s"
    "heap s1 = (heap s)(p \<mapsto> ?d)"
    using destroy_shared [of s p d] by auto
  have "heap s1 p = Some ?d" "int k \<le> copyCount ?d"
    using s1 Suc.prems by simp_all
  from Suc.IH [OF this] obtain s' where s': "repeat k (destroy p) s1 = Inr s'" "vals s' = vals s1"
    "heap s' = (heap s1)(p \<mapsto> ?d\<lparr>copyCount := copyCount ?d - int k\<rparr>)"
    by blast
  have "repeat (Suc k) (destroy p) s = Inr s'"
    using s1 s' by simp
  moreover have "vals s' = vals s"
    using s1 s' by simp
  moreover have "heap s' = (heap s)(p \<mapsto> d\<lparr>copyCount := copyCount d - int (Suc k)\<rparr>)"
    using s1 s' by (simp add: diff_diff_eq)
  ultimately show ?case by blast
qed

text \<open>
  C2. A payload fresh from its constructor (counter 0) is shared \<open>N\<close> times and then
  released \<open>N + 1\<close> times, \<open>N\<close> within the range of \<open>int\<close>. All \<open>N\<close> calls of \<open>copy\<close> return.
  After \<open>k \<le> N\<close> calls of \<open>destroy\<close> the payload is still allocated and its counter is
  \<open>N - k\<close>; the call number \<open>N + 1\<close> deallocates it, and a further call would go through a
  pointer to no object.
\<close>

theorem share_N_release_Suc_N:
  assumes fresh: "heap s p = Some (ValueData_ctor c)"
    and range: "int N \<le> INT_MAX"
  shows "\<exists>s1. repeat N (share p) s = Inr s1
      \<and> (\<forall>k\<le>N. \<exists>sk d. repeat k (destroy p) s1 = Inr sk
            \<and> heap sk p = Some d \<and> copyCount d = int N - int k)
      \<and> (\<exists>s2. repeat (Suc N) (destroy p) s1 = Inr s2 \<and> heap s2 p = None
            \<and> destroy p s2 = Inl InvalidAccess)"
proof -
  let ?d = "(ValueData_ctor c)\<lparr>copyCount := int N\<rparr>"
  obtain s1 where s1: "repeat N (share p) s = Inr s1" "heap s1 = (heap s)(p \<mapsto> ?d)"
    using repeat_share [OF fresh, of N] range by (auto simp: ValueData_ctor_def)
  have h1: "heap s1 p = Some ?d"
    using s1 by simp
  have alive: "\<exists>sk d. repeat k (destroy p) s1 = Inr sk
      \<and> heap sk p = Some d \<and> copyCount d = int N - int k" if "k \<le> N" for k
    using repeat_destroy [OF h1, of k] that by auto
  obtain sN where sN: "repeat N (destroy p) s1 = Inr sN"
    "heap sN = (heap s1)(p \<mapsto> ?d\<lparr>copyCount := 0\<rparr>)"
    using repeat_destroy [OF h1, of N] by auto
  then have "heap sN p = Some (?d\<lparr>copyCount := 0\<rparr>)"
    by simp
  from destroy_sole [OF this] obtain s2 where s2: "destroy p sN = Inr s2"
    "heap s2 = (heap sN)(p := None)"
    by auto
  have last: "repeat (Suc N) (destroy p) s1 = Inr s2"
    using sN s2 by (simp add: repeat_Suc_end del: repeat.simps)
  have "destroy p s2 = Inl InvalidAccess"
    using s2 by (simp add: destroy_freed)
  with s1 alive last s2 show ?thesis
    by (simp del: repeat.simps)
qed

theorem share_N_release_Suc_N_witness:
  "heap (new_String () 7 empty_state) 7 = Some (ValueData_ctor String_class)
   \<and> int 2 \<le> INT_MAX
   \<and> (\<exists>s1. repeat 2 (share 7) (new_String () 7 empty_state) = Inr s1
      \<and> (\<forall>k\<le>2. \<exists>sk d. repeat k (destroy 7) s1 = Inr sk
            \<and> heap sk 7 = Some d \<and> copyCount d = int 2 - int k)
      \<and> (\<exists>s2. repeat (Suc 2) (destroy 7) s1 = Inr s2 \<and> heap s2 7 = None
            \<and> destroy 7 s2 = Inl InvalidAccess))"
proof -
  have h: "heap (new_String () 7 empty_state) 7 = Some (ValueData_ctor String_class)"
    by simp
  have r: "int 2 \<le> INT_MAX"
    by (simp add: INT_MAX_def)
  from share_N_release_Suc_N [OF h r] h r show ?thesis by blast
qed

lemmas tester_defs = isNull_def isBoolean_def isInteger_def isFloatingPoint_def isString_def
  isArray_def isDictionary_def isClosure_def VALUE_TYPE_TESTER_def

lemmas getter_defs = getBoolean_def getInteger_def getFloatingPoint_def VALUE_DATA_GETTER1_def
  getString_def getArray_def getDictionary_def getClosure_def

section \<open>Move construction\<close>

text \<open>
  C5. Move construction from a live \<open>Value\<close> of a heap kind, into another object: the new
  \<open>Value\<close> has the source's tag and the source's payload pointer (the getter of the kind
  returns it), the source is tagged \<open>Null\<close> (\<open>isNull()\<close> is true on it), and no payload
  is touched: \<open>copy\<close> is not called and every counter is as before.
\<close>

theorem move_transfers_payload:
  assumes "vals s other = Some v" and "owned v = Some p" and "this \<noteq> other"
  shows "\<exists>s'. Value_move this other s = Inr s'
      \<and> vals s' this = Some v
      \<and> vals s' other = Some V_Null
      \<and> isNull other s' = Inr True
      \<and> heap s' = heap s
      \<and> (Value_type v = String \<longrightarrow> getString this s' = Inr p)
      \<and> (Value_type v = Array \<longrightarrow> getArray this s' = Inr p)
      \<and> (Value_type v = Dictionary \<longrightarrow> getDictionary this s' = Inr p)
      \<and> (Value_type v = Closure \<longrightarrow> getClosure this s' = Inr p)"
  using assms by (cases v) (simp_all add: Value_move_def tester_defs getter_defs)

theorem move_transfers_payload_witness:
  "vals (MakeString () 5 0 empty_state) 0 = Some (V_String 5)
   \<and> owned (V_String 5) = Some 5 \<and> (1::nat) \<noteq> 0
   \<and> (\<exists>s'. Value_move 1 0 (MakeString () 5 0 empty_state) = Inr s'
      \<and> vals s' 1 = Some (V_String 5)
      \<and> vals s' 0 = Some V_Null
      \<and> isNull 0 s' = Inr True
      \<and> heap s' = heap (MakeString () 5 0 empty_state)
      \<and> getString 1 s' = Inr 5)"
proof -
  have h: "vals (MakeString () 5 0 empty_state) 0 = Some (V_String 5)"
    by (simp add: MakeString_def Value_String_def)
  have o: "owned (V_String 5) = Some 5" by simp
  have n: "(1::nat) \<noteq> 0" by simp
  from move_transfers_payload [OF h o n] h show ?thesis by auto
qed

text \<open>
  C10. Move construction from a live \<open>Value\<close> tagged \<open>Null\<close>, \<open>Boolean\<close>, \<open>Integer\<close> or
  \<open>FloatingPoint\<close> leaves the source as it was, tag and scalar; the new \<open>Value\<close> is equal
  to it and nothing else changes. The source becomes \<open>Null\<close> when its tag is one of the
  four heap kinds.
\<close>

theorem move_leaves_scalar_source:
  assumes "vals s other = Some v" and "Value_type v \<noteq> Reference"
  shows "\<exists>s'. Value_move this other s = Inr s'
      \<and> heap s' = heap s
      \<and> (Value_type v \<in> {Null, Boolean, Integer, FloatingPoint} \<longrightarrow>
            vals s' other = Some v \<and> vals s' this = Some v
            \<and> (\<forall>a. a \<noteq> this \<longrightarrow> vals s' a = vals s a))
      \<and> (Value_type v \<in> {String, Array, Dictionary, Closure} \<longrightarrow>
            vals s' other = Some V_Null)"
  using assms by (cases v) (simp_all add: Value_move_def)

theorem move_leaves_scalar_source_witness:
  "vals (Value_Integer 0 42 empty_state) 0 = Some (V_Integer 42)
   \<and> Value_type (V_Integer 42) \<noteq> Reference
   \<and> Value_type (V_Integer 42) \<in> {Null, Boolean, Integer, FloatingPoint}
   \<and> (\<exists>s'. Value_move 1 0 (Value_Integer 0 42 empty_state) = Inr s'
      \<and> vals s' 0 = Some (V_Integer 42) \<and> vals s' 1 = Some (V_Integer 42))"
proof -
  have h: "vals (Value_Integer 0 42 empty_state) 0 = Some (V_Integer 42)"
    by (simp add: Value_Integer_def)
  have t: "Value_type (V_Integer 42) \<noteq> Reference" by simp
  from move_leaves_scalar_source [OF h t, of 1] h show ?thesis by auto
qed

section \<open>Dereference and the Reference constructor\<close>

text \<open>
  C6. On a live \<open>Value\<close> that is not tagged \<open>Reference\<close>, \<open>tryDereference\<close> returns the
  address of that \<open>Value\<close>. On one tagged \<open>Reference\<close> whose referent is live and not
  tagged \<open>Reference\<close>, it returns the referent's address. Whatever address it returns
  holds a \<open>Value\<close> not tagged \<open>Reference\<close>, and \<open>tryDereference\<close> applied there returns
  the same address again.
\<close>

theorem tryDereference_idempotent:
  assumes "vals s this = Some v"
  shows "(Value_type v \<noteq> Reference \<longrightarrow> tryDereference this s = Inr this)
      \<and> (\<forall>r w. v = V_Reference r \<and> vals s r = Some w \<and> Value_type w \<noteq> Reference \<longrightarrow>
            tryDereference this s = Inr r)
      \<and> (\<forall>r. tryDereference this s = Inr r \<longrightarrow>
            (\<exists>w. vals s r = Some w \<and> Value_type w \<noteq> Reference)
            \<and> tryDereference r s = Inr r)"
  using assms
  by (cases v) (auto simp: tryDereference_def split: option.splits Value.splits if_splits)

theorem tryDereference_idempotent_witness:
  "vals (Value_Reference 1 0 (Value_Integer 0 42 empty_state)) 1 = Some (V_Reference 0)
   \<and> tryDereference 1 (Value_Reference 1 0 (Value_Integer 0 42 empty_state)) = Inr 0
   \<and> tryDereference 0 (Value_Reference 1 0 (Value_Integer 0 42 empty_state)) = Inr 0
   \<and> vals (Value_Reference 1 0 (Value_Integer 0 42 empty_state)) 0 = Some (V_Integer 42)"
proof -
  let ?s = "Value_Reference 1 0 (Value_Integer 0 42 empty_state)"
  have h: "vals ?s 1 = Some (V_Reference 0)"
    by (simp add: Value_Reference_def)
  have r: "vals ?s 0 = Some (V_Integer 42)"
    by (simp add: Value_Reference_def Value_Integer_def)
  from tryDereference_idempotent [OF h] h r show ?thesis by auto
qed

text \<open>
  C7, as stated: a \<open>Reference\<close> to a \<open>Value\<close> tagged \<open>Reference\<close> is rejected when it is
  constructed. It is not: with an \<open>Integer\<close> at address 0 and a \<open>Reference\<close> to it at
  address 1, \<open>Value(Value *)\<close> called with the address 1 constructs, at address 2, a
  \<open>Reference\<close> whose referent is tagged \<open>Reference\<close>.
\<close>

theorem chained_Reference_constructed:
  "vals (Value_Reference 2 1 (Value_Reference 1 0 (Value_Integer 0 42 empty_state))) 1
     = Some (V_Reference 0)
   \<and> vals (Value_Reference 2 1 (Value_Reference 1 0 (Value_Integer 0 42 empty_state))) 2
     = Some (V_Reference 1)"
  by (simp add: Value_Reference_def Value_Integer_def)

text \<open>
  C7, amended. \<open>Value(Value *)\<close> stores the pointer it is given and looks at nothing
  else: it changes no other object and no payload, whatever the pointer points to. The
  rule against chains is asserted by \<open>tryDereference\<close>: on a \<open>Reference\<close> whose referent
  is tagged \<open>Reference\<close> its assertion fails.
\<close>

theorem Reference_checked_at_dereference:
  "vals (Value_Reference this x s) this = Some (V_Reference x)
   \<and> heap (Value_Reference this x s) = heap s
   \<and> (\<forall>a. a \<noteq> this \<longrightarrow> vals (Value_Reference this x s) a = vals s a)
   \<and> (\<forall>y. vals (Value_Reference this x s) x = Some (V_Reference y) \<longrightarrow>
         tryDereference this (Value_Reference this x s) = Inl AssertionFailed)"
  by (simp add: Value_Reference_def tryDereference_def)

theorem Reference_checked_at_dereference_witness:
  "vals (Value_Reference 2 1 (Value_Reference 1 0 (Value_Integer 0 42 empty_state))) 1
     = Some (V_Reference 0)
   \<and> tryDereference 2 (Value_Reference 2 1 (Value_Reference 1 0 (Value_Integer 0 42 empty_state)))
     = Inl AssertionFailed"
proof -
  let ?s = "Value_Reference 1 0 (Value_Integer 0 42 empty_state)"
  have h: "vals (Value_Reference 2 1 ?s) 1 = Some (V_Reference 0)"
    by (simp add: Value_Reference_def)
  from Reference_checked_at_dereference [of 2 1 ?s] h show ?thesis by blast
qed

section \<open>Assertions\<close>

text \<open>
  C8. For a live \<open>Value\<close>: if it is tagged \<open>Reference\<close>, each of the eight type tests
  fails its assertion, and so do the copy and the move constructor called with it as the
  source; if it is not, each type test returns whether the tag is the kind asked for, and
  neither constructor fails an assertion. Each of the seven getters returns (the address
  of the scalar member, or the payload pointer) when the tag is the kind asked for, and
  fails its assertion otherwise.
\<close>

theorem contract_violations_asserted:
  assumes "vals s this = Some v"
  shows "(Value_type v = Reference \<longrightarrow>
            isNull this s = Inl AssertionFailed \<and> isBoolean this s = Inl AssertionFailed
            \<and> isInteger this s = Inl AssertionFailed \<and> isFloatingPoint this s = Inl AssertionFailed
            \<and> isString this s = Inl AssertionFailed \<and> isArray this s = Inl AssertionFailed
            \<and> isDictionary this s = Inl AssertionFailed \<and> isClosure this s = Inl AssertionFailed
            \<and> Value_copy a this s = Inl AssertionFailed
            \<and> Value_move a this s = Inl AssertionFailed)
      \<and> (Value_type v \<noteq> Reference \<longrightarrow>
            isNull this s = Inr (Value_type v = Null)
            \<and> isBoolean this s = Inr (Value_type v = Boolean)
            \<and> isInteger this s = Inr (Value_type v = Integer)
            \<and> isFloatingPoint this s = Inr (Value_type v = FloatingPoint)
            \<and> isString this s = Inr (Value_type v = String)
            \<and> isArray this s = Inr (Value_type v = Array)
            \<and> isDictionary this s = Inr (Value_type v = Dictionary)
            \<and> isClosure this s = Inr (Value_type v = Closure)
            \<and> Value_copy a this s \<noteq> Inl AssertionFailed
            \<and> Value_move a this s \<noteq> Inl AssertionFailed)
      \<and> getBoolean this s = (if Value_type v = Boolean then Inr this else Inl AssertionFailed)
      \<and> getInteger this s = (if Value_type v = Integer then Inr this else Inl AssertionFailed)
      \<and> getFloatingPoint this s =
            (if Value_type v = FloatingPoint then Inr this else Inl AssertionFailed)
      \<and> getString this s = (if Value_type v = String then Inr (the (owned v)) else Inl AssertionFailed)
      \<and> getArray this s = (if Value_type v = Array then Inr (the (owned v)) else Inl AssertionFailed)
      \<and> getDictionary this s =
            (if Value_type v = Dictionary then Inr (the (owned v)) else Inl AssertionFailed)
      \<and> getClosure this s =
            (if Value_type v = Closure then Inr (the (owned v)) else Inl AssertionFailed)"
proof -
  have testers: "VALUE_TYPE_TESTER t this s =
      (if Value_type v = Reference then Inl AssertionFailed else Inr (Value_type v = t))" for t
    using assms by (simp add: VALUE_TYPE_TESTER_def)
  have ctor_ref: "Value_copy a this s = Inl AssertionFailed \<and> Value_move a this s = Inl AssertionFailed"
    if "Value_type v = Reference"
    using assms that by (cases v) (simp_all add: Value_copy_def Value_move_def)
  have copy_ok: "Value_copy a this s \<noteq> Inl AssertionFailed" if "Value_type v \<noteq> Reference"
    using assms that
    by (cases v) (auto simp: Value_copy_def copy_def split: option.splits if_splits)
  have move_ok: "Value_move a this s \<noteq> Inl AssertionFailed" if "Value_type v \<noteq> Reference"
    using assms that by (cases v) (simp_all add: Value_move_def)
  have getters1: "VALUE_DATA_GETTER1 t this s =
      (if Value_type v = t then Inr this else Inl AssertionFailed)" for t
    using assms by (simp add: VALUE_DATA_GETTER1_def)
  have getters2:
    "getString this s = (if Value_type v = String then Inr (the (owned v)) else Inl AssertionFailed)"
    "getArray this s = (if Value_type v = Array then Inr (the (owned v)) else Inl AssertionFailed)"
    "getDictionary this s =
       (if Value_type v = Dictionary then Inr (the (owned v)) else Inl AssertionFailed)"
    "getClosure this s =
       (if Value_type v = Closure then Inr (the (owned v)) else Inl AssertionFailed)"
    using assms
    by (cases v; simp add: getString_def getArray_def getDictionary_def getClosure_def)+
  show ?thesis
    using ctor_ref copy_ok move_ok getters2
    by (simp add: isNull_def isBoolean_def isInteger_def isFloatingPoint_def isString_def
        isArray_def isDictionary_def isClosure_def getBoolean_def getInteger_def
        getFloatingPoint_def testers getters1)
qed

theorem contract_violations_asserted_witness:
  "vals (Value_Reference 1 0 (Value_Integer 0 42 empty_state)) 1 = Some (V_Reference 0)
   \<and> vals (Value_Reference 1 0 (Value_Integer 0 42 empty_state)) 0 = Some (V_Integer 42)
   \<and> isInteger 1 (Value_Reference 1 0 (Value_Integer 0 42 empty_state)) = Inl AssertionFailed
   \<and> Value_copy 2 1 (Value_Reference 1 0 (Value_Integer 0 42 empty_state)) = Inl AssertionFailed
   \<and> Value_move 2 1 (Value_Reference 1 0 (Value_Integer 0 42 empty_state)) = Inl AssertionFailed
   \<and> isInteger 0 (Value_Reference 1 0 (Value_Integer 0 42 empty_state)) = Inr True
   \<and> isString 0 (Value_Reference 1 0 (Value_Integer 0 42 empty_state)) = Inr False
   \<and> getInteger 0 (Value_Reference 1 0 (Value_Integer 0 42 empty_state)) = Inr 0
   \<and> getString 0 (Value_Reference 1 0 (Value_Integer 0 42 empty_state)) = Inl AssertionFailed"
proof -
  let ?s = "Value_Reference 1 0 (Value_Integer 0 42 empty_state)"
  have h1: "vals ?s 1 = Some (V_Reference 0)"
    by (simp add: Value_Reference_def)
  have h0: "vals ?s 0 = Some (V_Integer 42)"
    by (simp add: Value_Reference_def Value_Integer_def)
  from contract_violations_asserted [OF h1, of 2] contract_violations_asserted [OF h0, of 2] h1 h0
  show ?thesis by simp
qed

section \<open>Copy construction\<close>

text \<open>
  C4. Copy construction from a live \<open>Value\<close> of a heap kind whose payload is live, with
  its counter below \<open>INT_MAX\<close>: the new \<open>Value\<close> has the source's tag and the very same
  payload pointer, so the getter of the kind returns one pointer on both; the payload's
  counter is one more than before, and nothing else in the heap changes: no payload is
  allocated, none is cloned.
\<close>

theorem copy_shares_payload:
  assumes "vals s other = Some v" and "owned v = Some p"
    and "heap s p = Some d" and "copyCount d < INT_MAX"
  shows "\<exists>s'. Value_copy this other s = Inr s'
      \<and> vals s' this = Some v
      \<and> vals s' other = Some v
      \<and> heap s' = (heap s)(p \<mapsto> d\<lparr>copyCount := copyCount d + 1\<rparr>)
      \<and> (Value_type v = String \<longrightarrow> getString this s' = Inr p \<and> getString other s' = Inr p)
      \<and> (Value_type v = Array \<longrightarrow> getArray this s' = Inr p \<and> getArray other s' = Inr p)
      \<and> (Value_type v = Dictionary \<longrightarrow>
            getDictionary this s' = Inr p \<and> getDictionary other s' = Inr p)
      \<and> (Value_type v = Closure \<longrightarrow> getClosure this s' = Inr p \<and> getClosure other s' = Inr p)"
  using assms
  by (cases v)
    (simp_all add: Value_copy_def copy_def getString_def getArray_def getDictionary_def
      getClosure_def)

theorem copy_shares_payload_witness:
  "vals (MakeString () 5 0 empty_state) 0 = Some (V_String 5)
   \<and> owned (V_String 5) = Some 5
   \<and> heap (MakeString () 5 0 empty_state) 5 = Some (ValueData_ctor String_class)
   \<and> copyCount (ValueData_ctor String_class) < INT_MAX
   \<and> (\<exists>s'. Value_copy 1 0 (MakeString () 5 0 empty_state) = Inr s'
      \<and> vals s' 1 = Some (V_String 5) \<and> vals s' 0 = Some (V_String 5)
      \<and> map_option copyCount (heap s' 5) = Some 1
      \<and> getString 1 s' = Inr 5 \<and> getString 0 s' = Inr 5)"
proof -
  let ?s = "MakeString () 5 0 empty_state"
  have h: "vals ?s 0 = Some (V_String 5)"
    by (simp add: MakeString_def Value_String_def)
  have o: "owned (V_String 5) = Some 5" by simp
  have d: "heap ?s 5 = Some (ValueData_ctor String_class)"
    by (simp add: MakeString_def Value_String_def)
  have c: "copyCount (ValueData_ctor String_class) < INT_MAX"
    by (simp add: ValueData_ctor_def INT_MAX_def)
  from copy_shares_payload [OF h o d c, of 1] h d c show ?thesis
    by (auto simp: ValueData_ctor_def)
qed

section \<open>The share count and the owners\<close>

lemma owners_upd:
  "vals s' = (vals s)(a \<mapsto> v) \<Longrightarrow>
   owners s' p = (if owned v = Some p then insert a (owners s p) else owners s p - {a})"
  by (auto simp: owners_def)

lemma owners_del: "vals s' = (vals s)(a := None) \<Longrightarrow> owners s' p = owners s p - {a}"
  by (auto simp: owners_def)

lemma owners_dead: "vals s a = None \<Longrightarrow> a \<notin> owners s p"
  by (simp add: owners_def)

lemma owners_live: "vals s a = Some v \<Longrightarrow> a \<in> owners s p \<longleftrightarrow> owned v = Some p"
  by (simp add: owners_def)

lemma countedI:
  "(\<And>q e. heap s q = Some e \<Longrightarrow>
      0 \<le> copyCount e \<and> int (card (owners s q)) = copyCount e + 1) \<Longrightarrow> counted s"
  by (simp add: counted_def)

lemma countedD:
  "counted s \<Longrightarrow> heap s q = Some e \<Longrightarrow>
   0 \<le> copyCount e \<and> int (card (owners s q)) = copyCount e + 1"
  by (simp add: counted_def)

lemma no_danglingI:
  "(\<And>a v p. vals s a = Some v \<Longrightarrow> owned v = Some p \<Longrightarrow> heap s p \<noteq> None) \<Longrightarrow>
   no_dangling s"
  unfolding no_dangling_def by blast

lemma no_danglingD:
  "no_dangling s \<Longrightarrow> vals s a = Some v \<Longrightarrow> owned v = Some p \<Longrightarrow> heap s p \<noteq> None"
  unfolding no_dangling_def by blast

lemma counted_finite:
  assumes "counted s" and "heap s p = Some d"
  shows "finite (owners s p)"
proof -
  from countedD [OF assms] have "0 < card (owners s p)" by linarith
  then show ?thesis by (rule card_ge_0_finite)
qed

lemma freed_no_owners:
  "no_dangling s \<Longrightarrow> heap s p = None \<Longrightarrow> owners s p = {}"
  unfolding no_dangling_def owners_def by blast

lemma add_nonowner:
  assumes s: "sound s" and a: "vals s a = None" and v: "owned v = None"
    and v': "vals s' = (vals s)(a \<mapsto> v)" and h': "heap s' = heap s"
  shows "sound s'"
proof -
  have same: "owners s' p = owners s p" for p
    using owners_upd [OF v', of p] owners_dead [OF a, of p] v by simp
  have "counted s'"
  proof (rule countedI)
    fix q e assume "heap s' q = Some e"
    then have e: "heap s q = Some e" by (simp add: h')
    from s have "counted s" by (simp add: sound_def)
    from countedD [OF this e] show "0 \<le> copyCount e \<and> int (card (owners s' q)) = copyCount e + 1"
      by (simp add: same)
  qed
  moreover have "no_dangling s'"
  proof (rule no_danglingI)
    fix b w q assume b: "vals s' b = Some w" and w: "owned w = Some q"
    with v v' have "vals s b = Some w" by (auto split: if_splits)
    moreover from s have "no_dangling s" by (simp add: sound_def)
    ultimately show "heap s' q \<noteq> None"
      using w no_danglingD [of s b w q] by (simp add: h')
  qed
  ultimately show ?thesis by (simp add: sound_def)
qed

lemma add_first_owner:
  assumes s: "sound s" and a: "vals s a = None" and p: "heap s p = None"
    and v: "owned v = Some p"
    and v': "vals s' = (vals s)(a \<mapsto> v)" and h': "heap s' = (heap s)(p \<mapsto> d0)"
    and d0: "copyCount d0 = 0"
  shows "sound s'"
proof -
  have nd: "no_dangling s" and c: "counted s"
    using s by (simp_all add: sound_def)
  have other: "owners s' q = owners s q" if "q \<noteq> p" for q
    using owners_upd [OF v', of q] owners_dead [OF a, of q] v that by simp
  have new: "owners s' p = {a}"
    using owners_upd [OF v', of p] freed_no_owners [OF nd p] v by simp
  have "counted s'"
  proof (rule countedI)
    fix q e assume e: "heap s' q = Some e"
    show "0 \<le> copyCount e \<and> int (card (owners s' q)) = copyCount e + 1"
    proof (cases "q = p")
      case True
      with e h' have "e = d0" by simp
      with True new d0 show ?thesis by simp
    next
      case False
      with e h' have "heap s q = Some e" by simp
      from countedD [OF c this] False show ?thesis by (simp add: other)
    qed
  qed
  moreover have "no_dangling s'"
  proof (rule no_danglingI)
    fix b w q assume b: "vals s' b = Some w" and w: "owned w = Some q"
    show "heap s' q \<noteq> None"
    proof (cases "q = p")
      case True
      then show ?thesis by (simp add: h')
    next
      case False
      with b w v v' have "vals s b = Some w" by (auto split: if_splits)
      from no_danglingD [OF nd this w] False show ?thesis by (simp add: h')
    qed
  qed
  ultimately show ?thesis by (simp add: sound_def)
qed

lemma add_sharing_owner:
  assumes s: "sound s" and a: "vals s a = None" and p: "heap s p = Some d"
    and v: "owned v = Some p"
    and v': "vals s' = (vals s)(a \<mapsto> v)"
    and h': "heap s' = (heap s)(p \<mapsto> d\<lparr>copyCount := copyCount d + 1\<rparr>)"
  shows "sound s'"
proof -
  have nd: "no_dangling s" and c: "counted s"
    using s by (simp_all add: sound_def)
  have other: "owners s' q = owners s q" if "q \<noteq> p" for q
    using owners_upd [OF v', of q] owners_dead [OF a, of q] v that by simp
  have ins: "owners s' p = insert a (owners s p)"
    using owners_upd [OF v', of p] v by simp
  have card': "card (owners s' p) = Suc (card (owners s p))"
    unfolding ins using counted_finite [OF c p] owners_dead [OF a, of p] by simp
  have "counted s'"
  proof (rule countedI)
    fix q e assume e: "heap s' q = Some e"
    show "0 \<le> copyCount e \<and> int (card (owners s' q)) = copyCount e + 1"
    proof (cases "q = p")
      case True
      with e h' have "e = d\<lparr>copyCount := copyCount d + 1\<rparr>" by simp
      with True card' countedD [OF c p] show ?thesis by simp
    next
      case False
      with e h' have "heap s q = Some e" by simp
      from countedD [OF c this] False show ?thesis by (simp add: other)
    qed
  qed
  moreover have "no_dangling s'"
  proof (rule no_danglingI)
    fix b w q assume b: "vals s' b = Some w" and w: "owned w = Some q"
    show "heap s' q \<noteq> None"
    proof (cases "q = p")
      case True
      then show ?thesis by (simp add: h')
    next
      case False
      with b w v v' have "vals s b = Some w" by (auto split: if_splits)
      from no_danglingD [OF nd this w] False show ?thesis by (simp add: h')
    qed
  qed
  ultimately show ?thesis by (simp add: sound_def)
qed

lemma transfer_owner:
  assumes s: "sound s" and a: "vals s a = None" and b: "vals s b = Some w"
    and w: "owned w = Some p" and v: "owned v = Some p"
    and v': "vals s' = (vals s)(a \<mapsto> v, b \<mapsto> V_Null)" and h': "heap s' = heap s"
  shows "sound s'"
proof -
  have nd: "no_dangling s" and c: "counted s"
    using s by (simp_all add: sound_def)
  have ab: "a \<noteq> b"
    using a b by auto
  have other: "owners s' q = owners s q" if "q \<noteq> p" for q
    using that a b w v ab unfolding owners_def v' by auto
  have moved: "owners s' p = insert a (owners s p - {b})"
    using a b w v ab unfolding owners_def v' by auto
  from no_danglingD [OF nd b w] obtain d where d: "heap s p = Some d" by auto
  have fin: "finite (owners s p)"
    by (rule counted_finite [OF c d])
  have mem: "b \<in> owners s p" "a \<notin> owners s p"
    using a b w by (simp_all add: owners_def)
  have "card (owners s' p) = Suc (card (owners s p - {b}))"
    unfolding moved using fin mem by (simp del: card_Diff_insert)
  also have "\<dots> = card (owners s p)"
    using card.remove [OF fin mem(1)] by simp
  finally have card': "card (owners s' p) = card (owners s p)" .
  have "counted s'"
  proof (rule countedI)
    fix q e assume "heap s' q = Some e"
    then have e: "heap s q = Some e" by (simp add: h')
    show "0 \<le> copyCount e \<and> int (card (owners s' q)) = copyCount e + 1"
    proof (cases "q = p")
      case True
      with countedD [OF c e] card' show ?thesis by simp
    next
      case False
      with countedD [OF c e] show ?thesis by (simp add: other)
    qed
  qed
  moreover have "no_dangling s'"
  proof (rule no_danglingI)
    fix x u q assume x: "vals s' x = Some u" and u: "owned u = Some q"
    show "heap s' q \<noteq> None"
    proof (cases "x = a")
      case True
      with x u v v' ab have "q = p" by simp
      with d show ?thesis by (simp add: h')
    next
      case False
      with x u v' have "vals s x = Some u" by (auto split: if_splits)
      from no_danglingD [OF nd this u] show ?thesis by (simp add: h')
    qed
  qed
  ultimately show ?thesis by (simp add: sound_def)
qed

lemma remove_nonowner:
  assumes s: "sound s" and a: "vals s a = Some v" and v: "owned v = None"
    and v': "vals s' = (vals s)(a := None)" and h': "heap s' = heap s"
  shows "sound s'"
proof -
  have nd: "no_dangling s" and c: "counted s"
    using s by (simp_all add: sound_def)
  have same: "owners s' p = owners s p" for p
    using owners_del [OF v', of p] owners_live [OF a, of p] v by simp
  have "counted s'"
  proof (rule countedI)
    fix q e assume "heap s' q = Some e"
    then have e: "heap s q = Some e" by (simp add: h')
    from countedD [OF c e] show "0 \<le> copyCount e \<and> int (card (owners s' q)) = copyCount e + 1"
      by (simp add: same)
  qed
  moreover have "no_dangling s'"
  proof (rule no_danglingI)
    fix x u q assume x: "vals s' x = Some u" and u: "owned u = Some q"
    with v' have "vals s x = Some u" by (auto split: if_splits)
    from no_danglingD [OF nd this u] show "heap s' q \<noteq> None" by (simp add: h')
  qed
  ultimately show ?thesis by (simp add: sound_def)
qed

lemma remove_owner:
  assumes s: "sound s" and a: "vals s a = Some v" and v: "owned v = Some p"
    and p: "heap s p = Some d"
    and v': "vals s' = (vals s)(a := None)"
    and h': "heap s' = (if copyCount d = 0 then (heap s)(p := None)
                        else (heap s)(p \<mapsto> d\<lparr>copyCount := copyCount d - 1\<rparr>))"
  shows "sound s'"
proof -
  have nd: "no_dangling s" and c: "counted s"
    using s by (simp_all add: sound_def)
  have other: "owners s' q = owners s q" if "q \<noteq> p" for q
    using owners_del [OF v', of q] owners_live [OF a, of q] v that by simp
  have del: "owners s' p = owners s p - {a}"
    by (rule owners_del [OF v'])
  have fin: "finite (owners s p)"
    by (rule counted_finite [OF c p])
  have mem: "a \<in> owners s p"
    using owners_live [OF a, of p] v by simp
  have cnt: "0 \<le> copyCount d" "int (card (owners s p)) = copyCount d + 1"
    using countedD [OF c p] by simp_all
  have "card (owners s' p) = card (owners s p) - 1"
    unfolding del using fin mem by (simp add: card_Diff_singleton)
  with cnt have card': "int (card (owners s' p)) = copyCount d"
    by simp
  have old: "vals s x = Some u" if "vals s' x = Some u" for x u
    using that v' by (auto split: if_splits)
  show ?thesis
  proof (cases "copyCount d = 0")
    case True
    then have hp: "heap s' = (heap s)(p := None)"
      using h' by simp
    from True card' have "card (owners s' p) = 0" by simp
    then have empty: "owners s' p = {}"
      using fin del by simp
    have "counted s'"
    proof (rule countedI)
      fix q e assume e: "heap s' q = Some e"
      then have qp: "q \<noteq> p" by (auto simp: hp)
      with e have "heap s q = Some e" by (simp add: hp)
      from countedD [OF c this] qp
      show "0 \<le> copyCount e \<and> int (card (owners s' q)) = copyCount e + 1"
        by (simp add: other)
    qed
    moreover have "no_dangling s'"
    proof (rule no_danglingI)
      fix x u q assume x: "vals s' x = Some u" and u: "owned u = Some q"
      then have "x \<in> owners s' q"
        by (auto simp: owners_def)
      with empty have "q \<noteq> p" by auto
      with no_danglingD [OF nd old [OF x] u] show "heap s' q \<noteq> None"
        by (simp add: hp)
    qed
    ultimately show ?thesis by (simp add: sound_def)
  next
    case False
    then have hp: "heap s' = (heap s)(p \<mapsto> d\<lparr>copyCount := copyCount d - 1\<rparr>)"
      using h' by simp
    have "counted s'"
    proof (rule countedI)
      fix q e assume e: "heap s' q = Some e"
      show "0 \<le> copyCount e \<and> int (card (owners s' q)) = copyCount e + 1"
      proof (cases "q = p")
        case True
        with e hp have "e = d\<lparr>copyCount := copyCount d - 1\<rparr>" by simp
        with True card' cnt False show ?thesis by simp
      next
        case qp: False
        with e have "heap s q = Some e" by (simp add: hp)
        from countedD [OF c this] qp show ?thesis by (simp add: other)
      qed
    qed
    moreover have "no_dangling s'"
    proof (rule no_danglingI)
      fix x u q assume x: "vals s' x = Some u" and u: "owned u = Some q"
      from no_danglingD [OF nd old [OF x] u] show "heap s' q \<noteq> None"
        by (simp add: hp)
    qed
    ultimately show ?thesis by (simp add: sound_def)
  qed
qed



lemma copy_effect:
  assumes "copy p s = Inr (q, s1)"
  shows "\<exists>d. heap s p = Some d \<and> q = p \<and> vals s1 = vals s
      \<and> heap s1 = (heap s)(p \<mapsto> d\<lparr>copyCount := copyCount d + 1\<rparr>)"
  using assms by (auto simp: copy_def split: option.splits if_splits)

lemma destroy_effect:
  assumes "destroy p s = Inr s1"
  shows "\<exists>d. heap s p = Some d \<and> vals s1 = vals s
      \<and> heap s1 = (if copyCount d = 0 then (heap s)(p := None)
                   else (heap s)(p \<mapsto> d\<lparr>copyCount := copyCount d - 1\<rparr>))"
proof -
  from assms obtain d where d: "heap s p = Some d"
    by (cases "heap s p") (simp_all add: destroy_def)
  show ?thesis
  proof (cases "copyCount d = 0")
    case True
    with assms d have "s1 = s\<lparr>heap := (heap s)(p := None)\<rparr>"
      by (simp add: destroy_def)
    with d True show ?thesis by simp
  next
    case False
    with assms d have "s1 = s\<lparr>heap := (heap s)(p \<mapsto> d\<lparr>copyCount := copyCount d - 1\<rparr>)\<rparr>"
      by (simp add: destroy_def split: if_splits)
    with d False show ?thesis by simp
  qed
qed

lemma sound_empty_state: "sound empty_state"
  by (simp add: sound_def no_dangling_def counted_def empty_state_def)

lemma sound_put_nonowner:
  "sound s \<Longrightarrow> vals s this = None \<Longrightarrow> owned v = None \<Longrightarrow> sound (put this v s)"
  by (rule add_nonowner [where s = s and a = this and v = v]) simp_all

lemma sound_new_String:
  assumes "sound s" and "vals s this = None" and "heap s p = None"
  shows "sound (Value_String this p (new_String args p s))"
  by (rule add_first_owner [where s = s and a = this and p = p and v = "V_String p"
        and ?d0.0 = "ValueData_ctor String_class"])
    (use assms in \<open>simp_all add: Value_String_def ValueData_ctor_def\<close>)

lemma sound_share_put:
  assumes "sound s" and "vals s this = None" and "copy p s = Inr (q, s1)"
    and "owned v = Some q"
  shows "sound (put this v s1)"
proof -
  from copy_effect [OF assms(3)] obtain d where d: "heap s p = Some d" "q = p"
    "vals s1 = vals s" "heap s1 = (heap s)(p \<mapsto> d\<lparr>copyCount := copyCount d + 1\<rparr>)"
    by blast
  show ?thesis
    by (rule add_sharing_owner [where s = s and a = this and p = p and v = v and d = d])
      (use assms d in simp_all)
qed

lemma sound_Value_copy:
  assumes s: "sound s" and free: "vals s this = None" and ok: "Value_copy this other s = Inr s'"
  shows "sound s'"
proof -
  from ok obtain v where v: "vals s other = Some v"
    by (auto simp: Value_copy_def split: option.splits)
  show ?thesis
  proof (cases "owned v")
    case None
    with ok v have "s' = put this v s"
      by (cases v) (simp_all add: Value_copy_def)
    with s free None show ?thesis by (simp add: sound_put_nonowner)
  next
    case (Some p)
    have "copy p s \<noteq> Inl e" for e
      using ok v Some by (cases v) (auto simp: Value_copy_def)
    then obtain q s1 where c: "copy p s = Inr (q, s1)"
      by (cases "copy p s") auto
    from copy_effect [OF c] have qp: "q = p" by blast
    from ok v Some c qp have s': "s' = put this v s1"
      by (cases v) (simp_all add: Value_copy_def)
    from Some qp have q: "owned v = Some q" by simp
    from sound_share_put [OF s free c q] s' show ?thesis by simp
  qed
qed


lemma sound_Value_move:
  assumes s: "sound s" and free: "vals s this = None" and ok: "Value_move this other s = Inr s'"
  shows "sound s'"
proof -
  from ok obtain v where v: "vals s other = Some v"
    by (auto simp: Value_move_def split: option.splits)
  show ?thesis
  proof (cases "owned v")
    case None
    with ok v have "s' = put this v s"
      by (cases v) (simp_all add: Value_move_def)
    with s free None show ?thesis by (simp add: sound_put_nonowner)
  next
    case (Some p)
    with ok v have s': "s' = put other V_Null (put this v s)"
      by (cases v) (simp_all add: Value_move_def)
    show ?thesis
      by (rule transfer_owner [where s = s and a = this and b = other and w = v and v = v
            and p = p])
        (use s free v Some s' in simp_all)
  qed
qed

lemma sound_Value_dtor:
  assumes s: "sound s" and ok: "Value_dtor this s = Inr s'"
  shows "sound s' \<and> vals s' = (vals s)(this := None)"
proof -
  from ok obtain v where v: "vals s this = Some v"
    by (auto simp: Value_dtor_def split: option.splits)
  show ?thesis
  proof (cases "owned v")
    case None
    with ok v have s': "s' = end_lifetime this s"
      by (cases v) (simp_all add: Value_dtor_def)
    have "sound s'"
      by (rule remove_nonowner [where s = s and a = this and v = v])
        (use s v None s' in simp_all)
    with s' show ?thesis by simp
  next
    case (Some p)
    with ok v obtain s1 where d: "destroy p s = Inr s1" and s': "s' = end_lifetime this s1"
      by (cases v) (auto simp: Value_dtor_def split: sum.splits)
    from destroy_effect [OF d] obtain e where e: "heap s p = Some e" "vals s1 = vals s"
      "heap s1 = (if copyCount e = 0 then (heap s)(p := None)
                  else (heap s)(p \<mapsto> e\<lparr>copyCount := copyCount e - 1\<rparr>))"
      by blast
    have "sound s'"
      by (rule remove_owner [where s = s and a = this and v = v and p = p and d = e])
        (use s v Some e s' in simp_all)
    with s' e show ?thesis by simp
  qed
qed

lemma sound_constructed:
  assumes "sound s" and "in_free_storage this s (Inr (put this v s)) = Inr s'"
    and "owned v = None"
  shows "sound s'"
  using assms by (auto simp: in_free_storage_def sound_put_nonowner split: if_splits)

lemma sound_made:
  assumes "sound s"
    and "in_free_storage this s (at_new_address p s
          (Inr (Value_String this p (new_String args p s)))) = Inr s'"
  shows "sound s'"
  using assms
  by (auto simp: in_free_storage_def at_new_address_def sound_new_String split: if_splits)

lemma sound_reading:
  "sound s \<Longrightarrow> reading s r = Inr s' \<Longrightarrow> sound s'"
  by (auto simp: reading_def split: sum.splits)

lemma sound_exec:
  assumes s: "sound s" and ok: "exec x s = Inr s'"
  shows "sound s'"
proof (cases x)
  case (Op_default this)
  with ok show ?thesis
    using sound_constructed [OF s, of this V_Null] by (simp add: Value_default_def)
next
  case (Op_Boolean this b)
  with ok show ?thesis
    using sound_constructed [OF s, of this "V_Boolean b"] by (simp add: Value_Boolean_def)
next
  case (Op_Integer this n)
  with ok show ?thesis
    using sound_constructed [OF s, of this "V_Integer n"] by (simp add: Value_Integer_def)
next
  case (Op_FloatingPoint this r)
  with ok show ?thesis
    using sound_constructed [OF s, of this "V_FloatingPoint r"]
    by (simp add: Value_FloatingPoint_def)
next
  case (Op_Reference this r)
  with ok show ?thesis
    using sound_constructed [OF s, of this "V_Reference r"] by (simp add: Value_Reference_def)
next
  case (Op_MakeString args p this)
  with ok show ?thesis
    using sound_made [OF s, of this p args] by (simp add: MakeString_def)
next
  case (Op_MakeArray args p this)
  with ok show ?thesis
    using sound_made [OF s, of this p args] by (simp add: MakeArray_def)
next
  case (Op_MakeDictionary args p this)
  with ok show ?thesis
    using sound_made [OF s, of this p args] by (simp add: MakeDictionary_def)
next
  case (Op_MakeClosure args p this)
  with ok show ?thesis
    using sound_made [OF s, of this p args] by (simp add: MakeClosure_def)
next
  case (Op_copy this other)
  with ok have "vals s this = None" "Value_copy this other s = Inr s'"
    by (simp_all add: in_free_storage_def split: if_splits)
  then show ?thesis by (rule sound_Value_copy [OF s])
next
  case (Op_move this other)
  with ok have "vals s this = None" "Value_move this other s = Inr s'"
    by (simp_all add: in_free_storage_def split: if_splits)
  then show ?thesis by (rule sound_Value_move [OF s])
next
  case (Op_dtor this)
  with ok have "Value_dtor this s = Inr s'" by simp
  from sound_Value_dtor [OF s this] show ?thesis by simp
next
  case (Op_tryDereference this)
  with ok show ?thesis using sound_reading [OF s] by simp
next
  case (Op_is t this)
  with ok show ?thesis using sound_reading [OF s] by simp
next
  case (Op_getBoolean this)
  with ok show ?thesis using sound_reading [OF s] by simp
next
  case (Op_getInteger this)
  with ok show ?thesis using sound_reading [OF s] by simp
next
  case (Op_getFloatingPoint this)
  with ok show ?thesis using sound_reading [OF s] by simp
next
  case (Op_getString this)
  with ok show ?thesis using sound_reading [OF s] by simp
next
  case (Op_getArray this)
  with ok show ?thesis using sound_reading [OF s] by simp
next
  case (Op_getDictionary this)
  with ok show ?thesis using sound_reading [OF s] by simp
next
  case (Op_getClosure this)
  with ok show ?thesis using sound_reading [OF s] by simp
qed

lemma sound_run:
  "sound s \<Longrightarrow> run xs s = Inr s' \<Longrightarrow> sound s'"
proof (induction xs arbitrary: s)
  case Nil
  then show ?case by simp
next
  case (Cons x xs)
  from Cons.prems(2) obtain s1 where x: "exec x s = Inr s1" and xs: "run xs s1 = Inr s'"
    by (auto split: sum.splits)
  from sound_exec [OF Cons.prems(1) x] xs show ?case
    by (rule Cons.IH)
qed

text \<open>
  C3. From the empty state, or from any state in which the bookkeeping is sound, every
  sequence of client operations that runs to its end (constructions, factory calls,
  copies, moves, destructions, and the reading functions) ends in a state
  where the bookkeeping is sound again: the counter of every live payload is not negative,
  the number of live \<open>Value\<close>s owning it is the counter plus one, and no live \<open>Value\<close>
  owns a payload that has been freed.
\<close>

theorem share_count_invariant:
  assumes "s = empty_state \<or> sound s" and "run xs s = Inr s'"
  shows "sound s'
      \<and> (\<forall>p d. heap s' p = Some d \<longrightarrow>
            0 \<le> copyCount d \<and> int (card (owners s' p)) = copyCount d + 1)
      \<and> (\<forall>a v p. vals s' a = Some v \<and> owned v = Some p \<longrightarrow> heap s' p \<noteq> None)"
proof -
  from assms(1) have "sound s"
    using sound_empty_state by blast
  from sound_run [OF this assms(2)] have "sound s'" .
  then show ?thesis
    unfolding sound_def counted_def no_dangling_def by blast
qed

theorem share_count_invariant_witness:
  "\<exists>s'. run [Op_MakeString () 5 0, Op_copy 1 0, Op_move 2 0, Op_Integer 3 42,
              Op_dtor 3, Op_copy 3 1, Op_dtor 1] empty_state = Inr s'
      \<and> vals s' 0 = Some V_Null \<and> vals s' 1 = None
      \<and> vals s' 2 = Some (V_String 5) \<and> vals s' 3 = Some (V_String 5)
      \<and> heap s' 5 = Some \<lparr>copyCount = 1, dynamic_class = String_class\<rparr>
      \<and> card (owners s' 5) = 2"
proof -
  let ?xs = "[Op_MakeString () 5 0, Op_copy 1 0, Op_move 2 0, Op_Integer 3 42,
              Op_dtor 3, Op_copy 3 1, Op_dtor 1]"
  have "\<exists>s'. run ?xs empty_state = Inr s'
      \<and> vals s' 0 = Some V_Null \<and> vals s' 1 = None
      \<and> vals s' 2 = Some (V_String 5) \<and> vals s' 3 = Some (V_String 5)
      \<and> heap s' 5 = Some \<lparr>copyCount = 1, dynamic_class = String_class\<rparr>"
    by (simp add: empty_state_def in_free_storage_def at_new_address_def MakeString_def
        Value_String_def new_String_def ValueData_ctor_def Value_copy_def copy_def
        Value_move_def Value_Integer_def Value_dtor_def destroy_def
        put_def end_lifetime_def INT_MAX_def INT_MIN_def)
  then obtain s' where r: "run ?xs empty_state = Inr s'"
    and v: "vals s' 0 = Some V_Null" "vals s' 1 = None"
      "vals s' 2 = Some (V_String 5)" "vals s' 3 = Some (V_String 5)"
    and h: "heap s' 5 = Some \<lparr>copyCount = 1, dynamic_class = String_class\<rparr>"
    by blast
  from share_count_invariant [OF _ r] h have "int (card (owners s' 5)) = 2"
    by fastforce
  with r v h show ?thesis by auto
qed

end
